theory Spec2Isabelle
  imports Main "HOL-Library.Word" "HOL-Library.Sublist" "HOL-Library.AList"
begin

section \<open>JavaScript strings, values and objects\<close>

text \<open>
  A JavaScript string is a sequence of 16-bit code units. ASCII literals of the source
  (\<^verbatim>\<open>'length'\<close>) are written through \<open>str\<close>.
\<close>

type_synonym jschar = "16 word"
type_synonym jsstring = "jschar list"

definition str :: "string \<Rightarrow> jsstring" where
  "str s = map (\<lambda>c. of_nat (of_char c)) s"

text \<open>\<^verbatim>\<open>s.charAt(i)\<close>: the one-unit string at index \<open>i\<close>, the empty string out of range.\<close>

definition charAt :: "jsstring \<Rightarrow> nat \<Rightarrow> jsstring" where
  "charAt s i = (if i < length s then [s ! i] else [])"

text \<open>
  \<^verbatim>\<open>s.split(sep)\<close> with a string separator and no limit: the segments of \<open>s\<close> between
  the occurrences of \<open>sep\<close>, found from left to right. \<open>seg\<close> is the segment being
  read, \<open>skip\<close> the number of code units of a matched separator still to pass over.
  An empty separator cuts \<open>s\<close> into its code units.
\<close>

fun split_loop :: "jsstring \<Rightarrow> jsstring \<Rightarrow> nat \<Rightarrow> jsstring \<Rightarrow> jsstring list" where
  "split_loop sep seg skip [] = [seg]"
| "split_loop sep seg (Suc skip) (c # cs) = split_loop sep seg skip cs"
| "split_loop sep seg 0 (c # cs) =
     (if prefix sep (c # cs) then seg # split_loop sep [] (length sep - 1) cs
      else split_loop sep (seg @ [c]) 0 cs)"

definition split :: "jsstring \<Rightarrow> jsstring \<Rightarrow> jsstring list" where
  "split s sep = (if sep = [] then map (\<lambda>c. [c]) s else split_loop sep [] 0 s)"

text \<open>
  The values a property can hold. \<open>JNumber\<close> are the integral numbers (the counter of a
  HashMap never leaves them), \<open>JOther\<close> every value that is neither \<^verbatim>\<open>undefined\<close>,
  \<^verbatim>\<open>null\<close> nor a number (strings, booleans, objects, functions).
\<close>

datatype 'a jsval = JUndefined | JNull | JNumber int | JNaN | JOther 'a

text \<open>
  \<^verbatim>\<open>x + n\<close> for a numeric literal \<open>n\<close> (\<^verbatim>\<open>x - 1\<close> is \<open>js_add x (- 1)\<close>): \<^verbatim>\<open>null\<close>
  counts as 0 and \<^verbatim>\<open>undefined\<close> gives NaN. What JavaScript does with a string or an
  object here depends on the value; that case is sent to NaN, and \<open>HashMap_inv\<close> below
  shows that the counter of a HashMap is always a number.
\<close>

fun js_add :: "'a jsval \<Rightarrow> int \<Rightarrow> 'a jsval" where
  "js_add (JNumber m) n = JNumber (m + n)"
| "js_add JNull n = JNumber n"
| "js_add JUndefined n = JNaN"
| "js_add JNaN n = JNaN"
| "js_add (JOther x) n = JNaN"

text \<open>
  An object is the list of its own properties in the order of their creation, which is
  the order \<^verbatim>\<open>for (key in obj)\<close> enumerates names that are not array indices. Writing
  an existing property keeps its place, writing a new one appends it, \<^verbatim>\<open>delete\<close>
  takes it out. No member of the prototype chain of a HashMap has a name that starts
  with the data prefix, so reading a property that is not an own property gives
  \<^verbatim>\<open>undefined\<close>.
\<close>

type_synonym 'a jsobject = "(jsstring \<times> 'a jsval) list"

definition own_keys :: "'a jsobject \<Rightarrow> jsstring list" where
  "own_keys obj = map fst obj"

definition hasOwnProperty :: "'a jsobject \<Rightarrow> jsstring \<Rightarrow> bool" where
  "hasOwnProperty obj name = (map_of obj name \<noteq> None)"

definition prop_get :: "'a jsobject \<Rightarrow> jsstring \<Rightarrow> 'a jsval" where
  "prop_get obj name = (case map_of obj name of Some v \<Rightarrow> v | None \<Rightarrow> JUndefined)"

definition prop_put :: "'a jsobject \<Rightarrow> jsstring \<Rightarrow> 'a jsval \<Rightarrow> 'a jsobject" where
  "prop_put obj name v = AList.update name v obj"

definition prop_delete :: "'a jsobject \<Rightarrow> jsstring \<Rightarrow> 'a jsobject" where
  "prop_delete obj name = AList.delete name obj"

text \<open>
  Modelled from the spec: \<^verbatim>\<open>tui.util.forEachOwnProperties\<close> of collection.js, which is
  not among the sources. It enumerates the own keys of a record and calls the iteratee
  with the value and the key; the iteratee returning \<^verbatim>\<open>false\<close> stops the enumeration.
  The keys are those present when the enumeration starts; a key deleted before its turn
  is passed over, and the value is read at the time of the visit. The iteratee works on
  a state \<open>'s\<close> in which the enumerated object is found through \<open>obj\<close>; it returns
  whether it returned \<^verbatim>\<open>false\<close>, and the new state.
\<close>

fun forEachOwnProperties_loop ::
  "('s \<Rightarrow> 'a jsobject) \<Rightarrow> ('a jsval \<Rightarrow> jsstring \<Rightarrow> 's \<Rightarrow> bool \<times> 's) \<Rightarrow> jsstring list \<Rightarrow> 's \<Rightarrow> 's" where
  "forEachOwnProperties_loop obj iteratee [] s = s"
| "forEachOwnProperties_loop obj iteratee (key # rest) s =
     (if hasOwnProperty (obj s) key then
        (case iteratee (prop_get (obj s) key) key s of
           (returned_false, s') \<Rightarrow>
             if returned_false then s' else forEachOwnProperties_loop obj iteratee rest s')
      else forEachOwnProperties_loop obj iteratee rest s)"

definition forEachOwnProperties ::
  "('s \<Rightarrow> 'a jsobject) \<Rightarrow> ('a jsval \<Rightarrow> jsstring \<Rightarrow> 's \<Rightarrow> bool \<times> 's) \<Rightarrow> 's \<Rightarrow> 's" where
  "forEachOwnProperties obj iteratee s =
     forEachOwnProperties_loop obj iteratee (own_keys (obj s)) s"

section \<open>HashMap (src/src/hashMap.js)\<close>

definition MAPDATAPREFIX :: jsstring where
  "MAPDATAPREFIX = [0xE5]"

text \<open>The constructor without initial data: \<^verbatim>\<open>this.length = 0\<close>.\<close>

definition HashMap_new :: "'a jsobject" where
  "HashMap_new = [(str ''length'', JNumber 0)]"

definition encodeKey :: "jsstring \<Rightarrow> jsstring" where
  "encodeKey key = MAPDATAPREFIX @ key"

definition decodeKey :: "jsstring \<Rightarrow> jsstring" where
  "decodeKey key = (let decodedKey = split key MAPDATAPREFIX in last decodedKey)"

definition get :: "jsstring \<Rightarrow> 'a jsobject \<Rightarrow> 'a jsval" where
  "get key this = prop_get this (encodeKey key)"

definition has :: "jsstring \<Rightarrow> 'a jsobject \<Rightarrow> bool" where
  "has key this = hasOwnProperty this (encodeKey key)"

text \<open>The counter: the property \<^verbatim>\<open>length\<close> of the instance.\<close>

definition size_hm :: "'a jsobject \<Rightarrow> 'a jsval" where
  "size_hm this = prop_get this (str ''length'')"

definition setKeyValue :: "jsstring \<Rightarrow> 'a jsval \<Rightarrow> 'a jsobject \<Rightarrow> 'a jsobject" where
  "setKeyValue key val this =
     (let this1 = (if \<not> has key this
                   then prop_put this (str ''length'') (js_add (prop_get this (str ''length'')) 1)
                   else this)
      in prop_put this1 (encodeKey key) val)"

text \<open>
  \<^verbatim>\<open>setObject(obj)\<close>: \<open>obj\<close> is a plain object other than the instance, given by its
  own properties in enumeration order.
\<close>

definition setObject :: "'a jsobject \<Rightarrow> 'a jsobject \<Rightarrow> 'a jsobject" where
  "setObject obj this =
     forEachOwnProperties (\<lambda>_. obj) (\<lambda>val key self. (False, setKeyValue key val self)) this"

text \<open>
  \<^verbatim>\<open>set\<close> looks at the number of its arguments: two are a key and a value, otherwise
  the first one is an object.
\<close>

datatype 'a set_arguments = KeyValue jsstring "'a jsval" | Object "'a jsobject"

fun set_hm :: "'a set_arguments \<Rightarrow> 'a jsobject \<Rightarrow> 'a jsobject" where
  "set_hm (KeyValue key val) this = setKeyValue key val this"
| "set_hm (Object obj) this = setObject obj this"

definition HashMap :: "'a jsobject option \<Rightarrow> 'a jsobject" where
  "HashMap obj = (case obj of None \<Rightarrow> HashMap_new | Some obj \<Rightarrow> setObject obj HashMap_new)"

text \<open>
  \<^verbatim>\<open>removeByKey\<close> returns the data and the instance after the call.
\<close>

definition removeByKey :: "jsstring \<Rightarrow> 'a jsobject \<Rightarrow> 'a jsval \<times> 'a jsobject" where
  "removeByKey key this =
     (let data = (if has key this then get key this else JNull)
      in if data \<noteq> JNull
         then (let this1 = prop_delete this (encodeKey key)
               in (data, prop_put this1 (str ''length'') (js_add (prop_get this1 (str ''length'')) (- 1))))
         else (data, this))"

text \<open>
  Modelled from the spec: \<^verbatim>\<open>tui.util.forEach\<close> of collection.js, which is not among the
  sources. On an array it calls the function on the elements in index order; the
  function here returns nothing, so every element is visited.
\<close>

fun removeByKeyArray :: "jsstring list \<Rightarrow> 'a jsobject \<Rightarrow> 'a jsval list \<times> 'a jsobject" where
  "removeByKeyArray [] this = ([], this)"
| "removeByKeyArray (key # keyArray) this =
     (case removeByKey key this of
        (d, this1) \<Rightarrow> (case removeByKeyArray keyArray this1 of
                        (data, this2) \<Rightarrow> (d # data, this2)))"

text \<open>
  \<^verbatim>\<open>remove\<close> takes one string (\<open>Key\<close>), or an array of strings, or several strings,
  which \<^verbatim>\<open>tui.util.toArray(arguments)\<close> collects into an array (\<open>Keys\<close> in both cases);
  \<^verbatim>\<open>tui.util.isArray\<close> then chooses \<^verbatim>\<open>removeByKeyArray\<close> or \<^verbatim>\<open>removeByKey\<close>. An array
  comes back for an array, a single value for a string.
\<close>

datatype remove_args = Key jsstring | Keys "jsstring list"

datatype 'a removed = Data "'a jsval" | DataArray "'a jsval list"

fun remove :: "remove_args \<Rightarrow> 'a jsobject \<Rightarrow> 'a removed \<times> 'a jsobject" where
  "remove (Keys keyArray) this =
     (case removeByKeyArray keyArray this of (data, this1) \<Rightarrow> (DataArray data, this1))"
| "remove (Key key) this =
     (case removeByKey key this of (data, this1) \<Rightarrow> (Data data, this1))"

text \<open>
  \<^verbatim>\<open>each\<close>: the variable \<^verbatim>\<open>flag\<close> lives outside the callback and keeps the last
  result of the iteratee; the boolean of the model says whether it is \<^verbatim>\<open>false\<close>. It
  starts \<^verbatim>\<open>undefined\<close>. The instance is found in the state through \<open>this\<close>.
\<close>

definition each ::
  "('s \<Rightarrow> 'a jsobject) \<Rightarrow> ('a jsval \<Rightarrow> jsstring \<Rightarrow> 's \<Rightarrow> bool \<times> 's) \<Rightarrow> 's \<Rightarrow> 's" where
  "each this iteratee s =
     snd (forEachOwnProperties (\<lambda>(flag, s). this s)
       (\<lambda>val key (flag, s).
          (case (if charAt key 0 = MAPDATAPREFIX then iteratee val (decodeKey key) s
                 else (flag, s)) of
             (flag', s') \<Rightarrow> (flag', (flag', s'))))
       (False, s))"

definition removeAll_hm :: "'a jsobject \<Rightarrow> 'a jsobject" where
  "removeAll_hm this = each (\<lambda>self. self) (\<lambda>val key self. (False, snd (remove (Key key) self))) this"

text \<open>\<^verbatim>\<open>keys\<close>: the state is the instance and the array \<^verbatim>\<open>keys\<close>.\<close>

definition keys :: "'a jsobject \<Rightarrow> jsstring list" where
  "keys this =
     snd (each fst (\<lambda>val key (self, ks). (False, (self, ks @ [decodeKey key]))) (this, []))"

text \<open>\<^verbatim>\<open>toArray\<close>: the values in the order of \<^verbatim>\<open>each\<close>.\<close>

definition toArray :: "'a jsobject \<Rightarrow> 'a jsval list" where
  "toArray this = snd (each fst (\<lambda>v key (self, result). (False, (self, result @ [v]))) (this, []))"

text \<open>
  \<^verbatim>\<open>merge\<close> works on two instances, which may be the same object: a heap maps
  references to objects, \<open>self\<close> is the receiver and \<open>hashMap\<close> the argument.
\<close>

type_synonym 'a heap = "nat \<Rightarrow> 'a jsobject"

definition merge :: "nat \<Rightarrow> nat \<Rightarrow> 'a heap \<Rightarrow> 'a heap" where
  "merge self hashMap h =
     each (\<lambda>h. h hashMap) (\<lambda>val key h. (False, h(self := setKeyValue key val (h self)))) h"

text \<open>
  The calls \<^verbatim>\<open>each\<close> makes: an iteratee that records the value and the key of every
  call, in order.
\<close>

definition visits :: "'a jsobject \<Rightarrow> ('a jsval \<times> jsstring) list" where
  "visits this =
     snd (each fst (\<lambda>val key (self, calls). (False, (self, calls @ [(val, key)]))) (this, []))"

section \<open>Sequences of operations\<close>

text \<open>
  The mutating operations of an instance. \<open>Merge other\<close> is \<^verbatim>\<open>this.merge(other)\<close> for an
  instance \<open>other\<close> that is another object than \<^verbatim>\<open>this\<close>: the heap holds the receiver
  at 0 and \<open>other\<close> everywhere else.
\<close>

datatype 'a operation =
    Set jsstring "'a jsval"
  | SetObject "'a jsobject"
  | Merge "'a jsobject"
  | Remove remove_args
  | RemoveByKeyArray "jsstring list"
  | RemoveAll

fun apply_operation :: "'a operation \<Rightarrow> 'a jsobject \<Rightarrow> 'a jsobject" where
  "apply_operation (Set key val) this = set_hm (KeyValue key val) this"
| "apply_operation (SetObject obj) this = set_hm (Object obj) this"
| "apply_operation (Merge other) this = merge 0 1 ((\<lambda>_. other)(0 := this)) 0"
| "apply_operation (Remove args) this = snd (remove args this)"
| "apply_operation (RemoveByKeyArray keyArray) this = snd (removeByKeyArray keyArray this)"
| "apply_operation RemoveAll this = removeAll_hm this"

definition run :: "'a operation list \<Rightarrow> 'a jsobject \<Rightarrow> 'a jsobject" where
  "run ops this = fold apply_operation ops this"

section \<open>Notions of the specification\<close>

text \<open>
  The names under which an instance holds its entries: the own keys that start with the
  data prefix, in enumeration order.
\<close>

definition data_keys :: "'a jsobject \<Rightarrow> jsstring list" where
  "data_keys this = filter (\<lambda>key. charAt key 0 = MAPDATAPREFIX) (own_keys this)"

text \<open>The keys present in an instance, in enumeration order: the entries' names, decoded exactly.\<close>

definition present_keys :: "'a jsobject \<Rightarrow> jsstring list" where
  "present_keys this = map (drop 1) (data_keys this)"

text \<open>
  The state of an instance between two calls: no property twice, every own property is
  the counter or an entry under an encoded key, and the counter is the number of entries.
\<close>

definition HashMap_inv :: "'a jsobject \<Rightarrow> bool" where
  "HashMap_inv this \<longleftrightarrow>
     distinct (own_keys this) \<and>
     (\<forall>name \<in> set (own_keys this). name = str ''length'' \<or> charAt name 0 = MAPDATAPREFIX) \<and>
     size_hm this = JNumber (int (length (data_keys this)))"

text \<open>
  The specification's words for decoding: split on the prefix character, keep the last
  segment. \<open>segments c s\<close> are the pieces of \<open>s\<close> between the occurrences of \<open>c\<close>.
\<close>

fun segments :: "jschar \<Rightarrow> jsstring \<Rightarrow> jsstring list" where
  "segments c [] = [[]]"
| "segments c (x # xs) =
     (if x = c then [] # segments c xs
      else (case segments c xs of seg # segs \<Rightarrow> (x # seg) # segs | [] \<Rightarrow> [[x]]))"

text \<open>The keys of a sequence of insertions, each at the place of its first insertion.\<close>

fun first_inserted :: "jsstring list \<Rightarrow> jsstring list" where
  "first_inserted [] = []"
| "first_inserted (k # ks) = k # filter (\<lambda>k'. k' \<noteq> k) (first_inserted ks)"

section \<open>Example instances\<close>

text \<open>A key in which the prefix occurs, and an instance that holds it.\<close>

definition key_with_prefix :: jsstring where
  "key_with_prefix = str ''a'' @ MAPDATAPREFIX @ str ''b''"

definition store_with_prefix_key :: "unit jsobject" where
  "store_with_prefix_key = setKeyValue key_with_prefix (JNumber 1) HashMap_new"

text \<open>A heap with a new instance at 0 and the instance above at every other reference.\<close>

definition heap_with_prefix_key :: "unit heap" where
  "heap_with_prefix_key = (\<lambda>_. store_with_prefix_key)(0 := HashMap_new)"

text \<open>
  The merge example of the specification: \<^verbatim>\<open>{x: 1}\<close> at 0 and \<^verbatim>\<open>{x: 2, y: 3}\<close> at every
  other reference.
\<close>

definition store_x :: "unit jsobject" where
  "store_x = HashMap (Some [(str ''x'', JNumber 1)])"

definition store_xy :: "unit jsobject" where
  "store_xy = HashMap (Some [(str ''x'', JNumber 2), (str ''y'', JNumber 3)])"

definition heap_x_xy :: "unit heap" where
  "heap_x_xy = (\<lambda>_. store_xy)(0 := store_x)"

section \<open>Strings: splitting, encoding and decoding\<close>

lemma prefix_MAPDATAPREFIX: "prefix MAPDATAPREFIX (c # cs) \<longleftrightarrow> c = 0xE5"
  by (simp add: MAPDATAPREFIX_def)

lemma sublist_MAPDATAPREFIX: "sublist MAPDATAPREFIX s \<longleftrightarrow> 0xE5 \<in> set s"
  by (induction s) (auto simp: MAPDATAPREFIX_def sublist_Cons_right)

lemma takeWhile_rev_free: "c \<notin> set s \<Longrightarrow> rev (takeWhile (\<lambda>x. x \<noteq> c) (rev s)) = s"
proof -
  assume "c \<notin> set s"
  then have "\<forall>x\<in>set (rev s). x \<noteq> c" by auto
  then have "takeWhile (\<lambda>x. x \<noteq> c) (rev s) = rev s"
    by (simp only: takeWhile_eq_all_conv)
  then show ?thesis by (simp only: rev_rev_ident)
qed

lemma split_loop_not_Nil: "split_loop sep seg n s \<noteq> []"
  by (induction sep seg n s rule: split_loop.induct) auto

lemma split_loop_prefix_last:
  "last (split_loop MAPDATAPREFIX seg 0 s) =
     (if 0xE5 \<in> set s then rev (takeWhile (\<lambda>c. c \<noteq> 0xE5) (rev s)) else seg @ s)"
proof (induction s arbitrary: seg)
  case Nil
  show ?case by simp
next
  case (Cons c cs)
  show ?case
  proof (cases "c = 0xE5")
    case True
    have "last (split_loop MAPDATAPREFIX seg 0 (c # cs)) = last (split_loop MAPDATAPREFIX [] 0 cs)"
      using True by (simp add: prefix_MAPDATAPREFIX split_loop_not_Nil) (simp add: MAPDATAPREFIX_def)
    also have "\<dots> = (if 0xE5 \<in> set cs then rev (takeWhile (\<lambda>c. c \<noteq> 0xE5) (rev cs)) else cs)"
      using Cons.IH [of "[]"] by simp
    also have "\<dots> = rev (takeWhile (\<lambda>c. c \<noteq> 0xE5) (rev (c # cs)))"
      using True by (auto simp: takeWhile_append)
    finally show ?thesis using True by simp
  next
    case False
    have "last (split_loop MAPDATAPREFIX seg 0 (c # cs)) = last (split_loop MAPDATAPREFIX (seg @ [c]) 0 cs)"
      using False by (simp add: prefix_MAPDATAPREFIX)
    also have "\<dots> = (if 0xE5 \<in> set cs then rev (takeWhile (\<lambda>c. c \<noteq> 0xE5) (rev cs)) else (seg @ [c]) @ cs)"
      using Cons.IH [of "seg @ [c]"] by simp
    finally show ?thesis using False by (auto simp: takeWhile_append)
  qed
qed

lemma decodeKey_suffix: "decodeKey s = rev (takeWhile (\<lambda>c. c \<noteq> 0xE5) (rev s))"
proof -
  have "decodeKey s = last (split_loop MAPDATAPREFIX [] 0 s)"
    by (simp add: decodeKey_def split_def MAPDATAPREFIX_def)
  also have "\<dots> = rev (takeWhile (\<lambda>c. c \<noteq> 0xE5) (rev s))"
    by (simp add: split_loop_prefix_last takeWhile_rev_free)
  finally show ?thesis .
qed

lemma decodeKey_free: "0xE5 \<notin> set s \<Longrightarrow> decodeKey s = s"
  by (simp add: decodeKey_suffix takeWhile_rev_free)

lemma decodeKey_encodeKey: "decodeKey (encodeKey k) = decodeKey k"
proof (cases "0xE5 \<in> set k")
  case True
  then show ?thesis
    by (auto simp: decodeKey_suffix encodeKey_def MAPDATAPREFIX_def takeWhile_append)
next
  case False
  then have "takeWhile (\<lambda>c. c \<noteq> 0xE5) (rev k @ [0xE5]) = rev k @ takeWhile (\<lambda>c. c \<noteq> 0xE5) [0xE5]"
    by (intro takeWhile_append2) auto
  then have "decodeKey (encodeKey k) = k"
    by (simp add: decodeKey_suffix encodeKey_def MAPDATAPREFIX_def)
  then show ?thesis using False by (simp add: decodeKey_free)
qed

lemma decodeKey_no_prefix: "0xE5 \<notin> set (decodeKey s)"
proof
  assume "0xE5 \<in> set (decodeKey s)"
  then have "0xE5 \<in> set (takeWhile (\<lambda>c. c \<noteq> 0xE5) (rev s))"
    by (simp add: decodeKey_suffix)
  then show False by (auto dest: set_takeWhileD)
qed

lemma decodeKey_idem: "decodeKey (decodeKey s) = decodeKey s"
  by (rule decodeKey_free) (rule decodeKey_no_prefix)

lemma decodeKey_split: "\<exists>pre. s = pre @ decodeKey s \<and> (pre = [] \<or> last pre = 0xE5)"
proof -
  let ?P = "\<lambda>c::jschar. c \<noteq> 0xE5"
  have "rev s = takeWhile ?P (rev s) @ dropWhile ?P (rev s)" by simp
  then have "s = rev (dropWhile ?P (rev s)) @ rev (takeWhile ?P (rev s))"
    by (metis rev_append rev_rev_ident)
  moreover have "rev (dropWhile ?P (rev s)) = [] \<or> last (rev (dropWhile ?P (rev s))) = 0xE5"
  proof (cases "dropWhile ?P (rev s)")
    case Nil then show ?thesis by simp
  next
    case (Cons d ds)
    then have "\<not> ?P d" using hd_dropWhile [of ?P "rev s"] by auto
    then show ?thesis using Cons by simp
  qed
  ultimately show ?thesis unfolding decodeKey_suffix by blast
qed

lemma decodeKey_lossy: "0xE5 \<in> set k \<Longrightarrow> decodeKey (encodeKey k) \<noteq> k"
  using decodeKey_no_prefix [of "encodeKey k"] by auto

section \<open>Properties and the state of an instance\<close>

lemma length_not_encoded: "encodeKey k \<noteq> str ''length''"
  by (simp add: encodeKey_def MAPDATAPREFIX_def str_def)

lemma encodeKey_inject: "encodeKey k1 = encodeKey k2 \<longleftrightarrow> k1 = k2"
  by (simp add: encodeKey_def)

lemma charAt_encodeKey: "charAt (encodeKey k) 0 = MAPDATAPREFIX"
  by (simp add: charAt_def encodeKey_def MAPDATAPREFIX_def)

lemma charAt_length: "charAt (str ''length'') 0 \<noteq> MAPDATAPREFIX"
  by (simp add: charAt_def MAPDATAPREFIX_def str_def)

lemma charAt_prefix_encoded: "charAt name 0 = MAPDATAPREFIX \<longleftrightarrow> name = encodeKey (drop 1 name)"
  by (cases name) (auto simp: charAt_def encodeKey_def MAPDATAPREFIX_def)

lemma hasOwnProperty_own_keys: "hasOwnProperty obj name \<longleftrightarrow> name \<in> set (own_keys obj)"
  by (simp add: hasOwnProperty_def own_keys_def map_of_eq_None_iff)

lemma hasOwnProperty_put:
  "hasOwnProperty (prop_put obj name v) name' \<longleftrightarrow> name' = name \<or> hasOwnProperty obj name'"
  by (simp add: hasOwnProperty_def prop_put_def update_conv')

lemma prop_get_put:
  "prop_get (prop_put obj name v) name' = (if name' = name then v else prop_get obj name')"
  by (simp add: prop_get_def prop_put_def update_conv')

lemma hasOwnProperty_delete:
  "hasOwnProperty (prop_delete obj name) name' \<longleftrightarrow> name' \<noteq> name \<and> hasOwnProperty obj name'"
  by (simp add: hasOwnProperty_def prop_delete_def delete_conv')

lemma prop_get_delete:
  "prop_get (prop_delete obj name) name' = (if name' = name then JUndefined else prop_get obj name')"
  by (simp add: prop_get_def prop_delete_def delete_conv')

lemma own_keys_put:
  "own_keys (prop_put obj name v) =
     (if hasOwnProperty obj name then own_keys obj else own_keys obj @ [name])"
  by (simp add: own_keys_def prop_put_def update_keys hasOwnProperty_def map_of_eq_None_iff)

lemma own_keys_delete: "own_keys (prop_delete obj name) = List.removeAll name (own_keys obj)"
  by (simp add: own_keys_def prop_delete_def delete_keys)

lemma data_keys_put_length:
  "data_keys (prop_put obj (str ''length'') v) = data_keys obj"
  by (simp add: data_keys_def own_keys_put charAt_length)

lemma data_keys_put_encoded:
  "data_keys (prop_put obj (encodeKey k) v) =
     (if hasOwnProperty obj (encodeKey k) then data_keys obj else data_keys obj @ [encodeKey k])"
  by (simp add: data_keys_def own_keys_put charAt_encodeKey)

lemma data_keys_delete: "data_keys (prop_delete obj name) = List.removeAll name (data_keys obj)"
  by (simp add: data_keys_def own_keys_delete removeAll_filter_not_eq) (metis filter_filter)

lemma length_removeAll_distinct:
  "distinct xs \<Longrightarrow> x \<in> set xs \<Longrightarrow> int (length (List.removeAll x xs)) = int (length xs) - 1"
  by (simp add: distinct_remove1_removeAll [symmetric] length_remove1) (cases xs; auto)

lemma has_data_keys: "has k this \<longleftrightarrow> encodeKey k \<in> set (data_keys this)"
  by (simp add: has_def hasOwnProperty_own_keys data_keys_def charAt_encodeKey)

lemma HashMap_inv_new: "HashMap_inv HashMap_new"
  by (simp add: HashMap_inv_def HashMap_new_def own_keys_def data_keys_def size_hm_def
      prop_get_def charAt_length)

lemma setKeyValue_inv:
  assumes "HashMap_inv this"
  shows "HashMap_inv (setKeyValue key val this)"
proof -
  let ?n = "int (length (data_keys this))"
  from assms have d: "distinct (own_keys this)"
    and b: "\<forall>name \<in> set (own_keys this). name = str ''length'' \<or> charAt name 0 = MAPDATAPREFIX"
    and c: "prop_get this (str ''length'') = JNumber ?n"
    by (simp_all add: HashMap_inv_def size_hm_def)
  from c have l: "hasOwnProperty this (str ''length'')"
    by (auto simp: prop_get_def hasOwnProperty_def split: option.splits)
  show ?thesis
  proof (cases "has key this")
    case True
    then have "setKeyValue key val this = prop_put this (encodeKey key) val"
      by (simp add: setKeyValue_def)
    moreover from True have "hasOwnProperty this (encodeKey key)" by (simp add: has_def)
    ultimately show ?thesis using d b c
      by (simp add: HashMap_inv_def size_hm_def own_keys_put data_keys_put_encoded prop_get_put
          length_not_encoded [symmetric])
  next
    case False
    let ?this1 = "prop_put this (str ''length'') (JNumber (?n + 1))"
    from False c have e: "setKeyValue key val this = prop_put ?this1 (encodeKey key) val"
      by (simp add: setKeyValue_def)
    from False have nh: "\<not> hasOwnProperty ?this1 (encodeKey key)"
      by (simp add: has_def hasOwnProperty_put length_not_encoded)
    have k1: "own_keys ?this1 = own_keys this" using l by (simp add: own_keys_put)
    have k2: "own_keys (setKeyValue key val this) = own_keys this @ [encodeKey key]"
      using nh k1 by (simp add: e own_keys_put)
    have k3: "data_keys (setKeyValue key val this) = data_keys this @ [encodeKey key]"
      using nh by (simp add: e data_keys_put_encoded data_keys_put_length)
    have "encodeKey key \<notin> set (own_keys this)"
      using False by (simp add: has_def hasOwnProperty_own_keys)
    then have "distinct (own_keys (setKeyValue key val this))" using d k2 by simp
    moreover have "\<forall>name \<in> set (own_keys (setKeyValue key val this)).
        name = str ''length'' \<or> charAt name 0 = MAPDATAPREFIX"
      using b k2 by (auto simp: charAt_encodeKey)
    moreover have "size_hm (setKeyValue key val this) = JNumber (?n + 1)"
      by (simp add: size_hm_def e prop_get_put length_not_encoded [symmetric])
    moreover have "int (length (data_keys (setKeyValue key val this))) = ?n + 1"
      by (simp only: k3) simp
    ultimately show ?thesis by (simp add: HashMap_inv_def)
  qed
qed

lemma removeByKey_inv:
  assumes "HashMap_inv this"
  shows "HashMap_inv (snd (removeByKey key this))"
proof (cases "has key this \<and> get key this \<noteq> JNull")
  case False
  then show ?thesis using assms by (auto simp: removeByKey_def Let_def)
next
  case True
  let ?n = "int (length (data_keys this))"
  let ?this1 = "prop_delete this (encodeKey key)"
  from assms have d: "distinct (own_keys this)"
    and b: "\<forall>name \<in> set (own_keys this). name = str ''length'' \<or> charAt name 0 = MAPDATAPREFIX"
    and c: "prop_get this (str ''length'') = JNumber ?n"
    by (simp_all add: HashMap_inv_def size_hm_def)
  from c have l: "hasOwnProperty this (str ''length'')"
    by (auto simp: prop_get_def hasOwnProperty_def split: option.splits)
  have c1: "prop_get ?this1 (str ''length'') = JNumber ?n"
    using c by (simp add: prop_get_delete length_not_encoded [symmetric])
  have e: "snd (removeByKey key this) = prop_put ?this1 (str ''length'') (JNumber (?n - 1))"
    using True c1 by (simp add: removeByKey_def Let_def)
  have l1: "hasOwnProperty ?this1 (str ''length'')"
    using l by (simp add: hasOwnProperty_delete length_not_encoded [symmetric])
  have k: "own_keys (snd (removeByKey key this)) = List.removeAll (encodeKey key) (own_keys this)"
    using l1 by (simp add: e own_keys_put own_keys_delete)
  have dk: "data_keys (snd (removeByKey key this)) = List.removeAll (encodeKey key) (data_keys this)"
    by (simp add: e data_keys_put_length data_keys_delete)
  have dd: "distinct (data_keys this)" using d by (simp add: data_keys_def)
  have "encodeKey key \<in> set (data_keys this)" using True by (simp add: has_data_keys)
  then have n: "int (length (List.removeAll (encodeKey key) (data_keys this))) = ?n - 1"
    using dd by (rule length_removeAll_distinct [rotated])
  have "distinct (own_keys (snd (removeByKey key this)))" using d k by (simp add: distinct_removeAll)
  moreover have "\<forall>name \<in> set (own_keys (snd (removeByKey key this))).
      name = str ''length'' \<or> charAt name 0 = MAPDATAPREFIX"
    using b k by auto
  moreover have "size_hm (snd (removeByKey key this)) = JNumber (?n - 1)"
    by (simp add: size_hm_def e prop_get_put)
  moreover have "int (length (data_keys (snd (removeByKey key this)))) = ?n - 1"
    by (simp only: dk n)
  ultimately show ?thesis by (simp add: HashMap_inv_def)
qed

section \<open>Enumeration\<close>

lemma loop_invariant:
  assumes "\<And>v k s. P s \<Longrightarrow> P (snd (f v k s))" and "P s"
  shows "P (forEachOwnProperties_loop objf f ks s)"
  using assms(2)
proof (induction ks arbitrary: s)
  case Nil
  then show ?case by simp
next
  case (Cons key rest)
  have "P (snd (f (prop_get (objf s) key) key s))" using assms(1) Cons.prems by blast
  then show ?case using Cons by (auto split: prod.splits)
qed

lemma each_invariant:
  fixes P :: "'s \<Rightarrow> bool"
  assumes "\<And>v k s. P s \<Longrightarrow> P (snd (iteratee v k s))" and "P s"
  shows "P (each this iteratee s)"
proof -
  let ?Q = "\<lambda>fs. P (snd fs)"
  have "?Q (forEachOwnProperties_loop (\<lambda>(flag, s). this s)
       (\<lambda>val key (flag, s).
          (case (if charAt key 0 = MAPDATAPREFIX then iteratee val (decodeKey key) s
                 else (flag, s)) of
             (flag', s') \<Rightarrow> (flag', (flag', s'))))
       (own_keys (this s)) (False, s))"
  proof (rule loop_invariant)
    show "?Q (False, s)" using assms(2) by simp
  next
    fix v k and fs :: "bool \<times> 's"
    assume "?Q fs"
    then have "P (snd (iteratee v (decodeKey k) (snd fs)))" using assms(1) by blast
    then show "?Q (snd ((\<lambda>(flag, s).
          (case (if charAt k 0 = MAPDATAPREFIX then iteratee v (decodeKey k) s
                 else (flag, s)) of
             (flag', s') \<Rightarrow> (flag', (flag', s')))) fs))"
      using \<open>?Q fs\<close> by (auto split: prod.splits)
  qed
  then show ?thesis by (simp add: each_def forEachOwnProperties_def)
qed

text \<open>
  An iteratee that never returns \<^verbatim>\<open>false\<close> and leaves the enumerated object as it is makes
  the enumeration a fold over the keys. Only the calls the enumeration makes matter:
  the value passed is the one the object holds under the key.
\<close>

lemma loop_fold:
  assumes step: "\<And>k s. I s \<Longrightarrow> k \<in> set (own_keys obj) \<Longrightarrow>
      \<not> fst (f (prop_get obj k) k s) \<and> I (snd (f (prop_get obj k) k s))"
    and obj: "\<And>s. I s \<Longrightarrow> objf s = obj"
    and "I s" and "set ks \<subseteq> set (own_keys obj)"
  shows "forEachOwnProperties_loop objf f ks s = fold (\<lambda>name s. snd (f (prop_get obj name) name s)) ks s"
  using assms(3,4)
proof (induction ks arbitrary: s)
  case Nil
  then show ?case by simp
next
  case (Cons key rest)
  have o: "objf s = obj" using obj Cons.prems(1) .
  have k: "key \<in> set (own_keys obj)" using Cons.prems(2) by simp
  then have h: "hasOwnProperty (objf s) key" using o by (simp add: hasOwnProperty_own_keys)
  obtain b s' where f: "f (prop_get obj key) key s = (b, s')" by (cases "f (prop_get obj key) key s")
  from step [OF Cons.prems(1) k] f have nb: "\<not> b" and i: "I s'" by simp_all
  have "forEachOwnProperties_loop objf f rest s' = fold (\<lambda>name s. snd (f (prop_get obj name) name s)) rest s'"
    using Cons.IH [OF i] Cons.prems(2) by simp
  then show ?case using h o f nb by simp
qed

lemma each_fold:
  assumes step: "\<And>name s. this s = obj \<Longrightarrow> name \<in> set (data_keys obj) \<Longrightarrow>
      \<not> fst (iteratee (prop_get obj name) (decodeKey name) s) \<and>
      this (snd (iteratee (prop_get obj name) (decodeKey name) s)) = obj"
    and "this s = obj"
  shows "each this iteratee s =
     fold (\<lambda>name s. snd (iteratee (prop_get obj name) (decodeKey name) s)) (data_keys obj) s"
proof -
  let ?objf = "\<lambda>(flag :: bool, s). this s"
  let ?f = "\<lambda>val key (flag, s).
          (case (if charAt key 0 = MAPDATAPREFIX then iteratee val (decodeKey key) s
                 else (flag, s)) of
             (flag', s') \<Rightarrow> (flag', (flag', s')))"
  let ?I = "\<lambda>(flag, s). \<not> flag \<and> this s = obj"
  let ?g = "\<lambda>name s. snd (iteratee (prop_get obj name) (decodeKey name) s)"
  have st: "\<not> fst (?f (prop_get obj k) k fs) \<and> ?I (snd (?f (prop_get obj k) k fs))"
    if "?I fs" and "k \<in> set (own_keys obj)" for k fs
  proof (cases "charAt k 0 = MAPDATAPREFIX")
    case True
    then have "k \<in> set (data_keys obj)" using that(2) by (simp add: data_keys_def)
    then show ?thesis using that(1) True step [of "snd fs" k]
      by (cases fs) (auto split: prod.splits)
  next
    case False
    then show ?thesis using that(1) by (cases fs) simp
  qed
  have "forEachOwnProperties_loop ?objf ?f (own_keys obj) (False, s) =
      fold (\<lambda>name s. snd (?f (prop_get obj name) name s)) (own_keys obj) (False, s)"
  proof (rule loop_fold [where I = ?I])
    show "\<not> fst (?f (prop_get obj k) k fs) \<and> ?I (snd (?f (prop_get obj k) k fs))"
      if "?I fs" and "k \<in> set (own_keys obj)" for k fs using st that .
    show "?objf fs = obj" if "?I fs" for fs using that by (cases fs) simp
    show "?I (False, s)" using assms(2) by simp
    show "set (own_keys obj) \<subseteq> set (own_keys obj)" by simp
  qed
  moreover have "this s = obj \<Longrightarrow> set ks \<subseteq> set (own_keys obj) \<Longrightarrow>
      fold (\<lambda>name s. snd (?f (prop_get obj name) name s)) ks (False, s) =
      (False, fold ?g (filter (\<lambda>key. charAt key 0 = MAPDATAPREFIX) ks) s)" for ks s
  proof (induction ks arbitrary: s)
    case Nil
    show ?case by simp
  next
    case (Cons key rest)
    show ?case
    proof (cases "charAt key 0 = MAPDATAPREFIX")
      case False
      then show ?thesis using Cons by simp
    next
      case True
      then have d: "key \<in> set (data_keys obj)" using Cons.prems(2) by (simp add: data_keys_def)
      obtain b s' where i: "iteratee (prop_get obj key) (decodeKey key) s = (b, s')"
        by (cases "iteratee (prop_get obj key) (decodeKey key) s")
      with step [OF Cons.prems(1) d]
      have "\<not> b" and "this s' = obj" by simp_all
      then show ?thesis using True i Cons.IH [of s'] Cons.prems(2) by simp
    qed
  qed
  ultimately show ?thesis using assms(2)
    by (simp add: each_def forEachOwnProperties_def data_keys_def)
qed

lemma fold_collect:
  "fold (\<lambda>name (self, acc). (self, acc @ [g name])) ks (this, acc) = (this, acc @ map g ks)"
  by (induction ks arbitrary: acc) auto

lemma visits_data_keys:
  "visits this = map (\<lambda>name. (prop_get this name, decodeKey name)) (data_keys this)"
proof -
  have "each fst (\<lambda>val key (self, calls). (False, (self, calls @ [(val, key)]))) (this, []) =
      fold (\<lambda>name s. snd ((\<lambda>val key (self, calls). (False, (self, calls @ [(val, key)])))
        (prop_get this name) (decodeKey name) s)) (data_keys this) (this, [])"
    by (rule each_fold) (auto split: prod.splits)
  also have "\<dots> = fold (\<lambda>name (self, acc). (self, acc @ [(prop_get this name, decodeKey name)]))
      (data_keys this) (this, [])"
    by (rule arg_cong [where f = "\<lambda>f. fold f (data_keys this) (this, [])"]) (auto simp: fun_eq_iff split: prod.splits)
  finally show ?thesis by (simp add: visits_def fold_collect)
qed

lemma keys_data_keys: "keys this = map decodeKey (data_keys this)"
proof -
  have "each fst (\<lambda>val key (self, ks). (False, (self, ks @ [decodeKey key]))) (this, []) =
      fold (\<lambda>name s. snd ((\<lambda>val key (self, ks). (False, (self, ks @ [decodeKey key])))
        (prop_get this name) (decodeKey name) s)) (data_keys this) (this, [])"
    by (rule each_fold) (auto split: prod.splits)
  also have "\<dots> = fold (\<lambda>name (self, acc). (self, acc @ [decodeKey (decodeKey name)]))
      (data_keys this) (this, [])"
    by (rule arg_cong [where f = "\<lambda>f. fold f (data_keys this) (this, [])"]) (auto simp: fun_eq_iff split: prod.splits)
  finally show ?thesis by (simp add: keys_def fold_collect decodeKey_idem)
qed

lemma merge_fold:
  assumes "self \<noteq> hashMap"
  shows "merge self hashMap h =
     fold (\<lambda>name h'. h'(self := setKeyValue (decodeKey name) (prop_get (h hashMap) name) (h' self)))
       (data_keys (h hashMap)) h"
  unfolding merge_def
  by (rule each_fold [where obj = "h hashMap", THEN trans]) (use assms in auto)

lemma setObject_fold:
  "setObject obj this = fold (\<lambda>name self. setKeyValue name (prop_get obj name) self) (own_keys obj) this"
  unfolding setObject_def forEachOwnProperties_def
  by (rule loop_fold [where I = "\<lambda>_. True", THEN trans]) auto

section \<open>Single operations\<close>

lemma segments_not_Nil: "segments c s \<noteq> []"
  by (induction s) (auto split: list.splits)

lemma split_loop_segments:
  "split_loop [c] seg 0 s = (case segments c s of g # gs \<Rightarrow> (seg @ g) # gs | [] \<Rightarrow> [])"
proof (induction s arbitrary: seg)
  case Nil
  show ?case by simp
next
  case (Cons x xs)
  obtain g gs where g: "segments c xs = g # gs"
    using segments_not_Nil [of c xs] by (cases "segments c xs") auto
  show ?case using Cons.IH [of "[]"] Cons.IH [of "seg @ [x]"] g by auto
qed

lemma split_segments: "split s MAPDATAPREFIX = segments (hd MAPDATAPREFIX) s"
proof -
  obtain g gs where g: "segments 0xE5 s = g # gs"
    using segments_not_Nil [of "0xE5" s] by (cases "segments 0xE5 s") auto
  then show ?thesis by (simp add: split_def MAPDATAPREFIX_def split_loop_segments)
qed

lemma get_setKeyValue:
  "get k (setKeyValue k' v this) = (if k = k' then v else get k this)"
  by (simp add: get_def setKeyValue_def Let_def prop_get_put length_not_encoded encodeKey_inject)

lemma has_setKeyValue:
  "has k (setKeyValue k' v this) \<longleftrightarrow> k = k' \<or> has k this"
  by (auto simp: has_def setKeyValue_def Let_def hasOwnProperty_put length_not_encoded encodeKey_inject)

lemma size_setKeyValue:
  "size_hm (setKeyValue k v this) = (if has k this then size_hm this else js_add (size_hm this) 1)"
  by (simp add: size_hm_def setKeyValue_def Let_def prop_get_put length_not_encoded [symmetric])

lemma removeByKey_absent: "\<not> has k this \<Longrightarrow> removeByKey k this = (JNull, this)"
  by (simp add: removeByKey_def)

lemma removeByKey_null: "get k this = JNull \<Longrightarrow> removeByKey k this = (JNull, this)"
  by (simp add: removeByKey_def)

lemma removeByKey_present:
  assumes "has k this" and "get k this \<noteq> JNull"
  shows "fst (removeByKey k this) = get k this"
    and "has k' (snd (removeByKey k this)) \<longleftrightarrow> k' \<noteq> k \<and> has k' this"
    and "get k' (snd (removeByKey k this)) = (if k' = k then JUndefined else get k' this)"
    and "size_hm (snd (removeByKey k this)) = js_add (size_hm this) (- 1)"
  using assms
  by (simp_all add: removeByKey_def Let_def has_def get_def size_hm_def hasOwnProperty_put
      hasOwnProperty_delete prop_get_put prop_get_delete length_not_encoded
      length_not_encoded [symmetric] encodeKey_inject)

lemma removeByKey_keeps_null:
  assumes "has k this" and "get k this = JNull"
  shows "has k (snd (removeByKey k' this)) \<and> get k (snd (removeByKey k' this)) = JNull"
proof (cases "has k' this \<and> get k' this \<noteq> JNull")
  case True
  then have "k \<noteq> k'" using assms by auto
  then show ?thesis using True assms by (simp add: removeByKey_present)
next
  case False
  then have "removeByKey k' this = (JNull, this)"
    by (auto simp: removeByKey_absent removeByKey_null)
  then show ?thesis using assms by simp
qed

lemma snd_remove_Key: "snd (remove (Key k) this) = snd (removeByKey k this)"
  by (simp split: prod.splits)

lemma fst_remove_Key: "fst (remove (Key k) this) = Data (fst (removeByKey k this))"
  by (simp split: prod.splits)

lemma removeAll_keeps_null:
  assumes "has k this" and "get k this = JNull"
  shows "has k (removeAll_hm this) \<and> get k (removeAll_hm this) = JNull"
  unfolding removeAll_hm_def
  by (rule each_invariant [where P = "\<lambda>s. has k s \<and> get k s = JNull"])
    (use assms in \<open>simp_all only: snd_remove_Key snd_conv removeByKey_keeps_null\<close>)

text \<open>
  C7. A key in which the reserved prefix does not occur is decoded back from its encoding:
  \<^verbatim>\<open>decodeKey(encodeKey(k)) == k\<close>. And \<^verbatim>\<open>encodeKey\<close> is injective on all strings: two
  keys with the same encoding are the same key.
\<close>
theorem encodeKey_roundtrip_injective:
  "(\<not> sublist MAPDATAPREFIX k \<longrightarrow> decodeKey (encodeKey k) = k) \<and>
   (encodeKey k1 = encodeKey k2 \<longrightarrow> k1 = k2)"
  by (simp add: sublist_MAPDATAPREFIX decodeKey_encodeKey decodeKey_free encodeKey_inject)

theorem encodeKey_roundtrip_injective_witness:
  "\<not> sublist MAPDATAPREFIX (str ''length'') \<and>
   decodeKey (encodeKey (str ''length'')) = str ''length'' \<and>
   encodeKey (str ''a'') = encodeKey (str ''a'') \<and> str ''a'' = str ''a''"
  using encodeKey_roundtrip_injective [of "str ''length''" "str ''a''" "str ''a''"]
  by (simp add: sublist_MAPDATAPREFIX str_def)

text \<open>
  C8. For every string \<open>s\<close>, \<^verbatim>\<open>decodeKey(s)\<close> is the last of the segments into which the
  prefix character cuts \<open>s\<close>: the suffix of \<open>s\<close> free of the prefix that starts \<open>s\<close> or
  follows a prefix character. So for a key \<open>k\<close> in which the prefix occurs,
  \<^verbatim>\<open>decodeKey(encodeKey(k))\<close> is the last segment of \<open>k\<close> and differs from \<open>k\<close>.
\<close>
theorem decodeKey_last_segment:
  "decodeKey s = last (segments (hd MAPDATAPREFIX) s) \<and>
   (\<exists>pre. s = pre @ decodeKey s \<and> (pre = [] \<or> last pre = hd MAPDATAPREFIX)) \<and>
   \<not> sublist MAPDATAPREFIX (decodeKey s) \<and>
   (sublist MAPDATAPREFIX k \<longrightarrow>
      decodeKey (encodeKey k) = last (segments (hd MAPDATAPREFIX) k) \<and>
      decodeKey (encodeKey k) \<noteq> k)"
proof -
  have 1: "decodeKey s = last (segments (hd MAPDATAPREFIX) s)" for s
    by (simp add: decodeKey_def split_segments)
  have 2: "\<exists>pre. s = pre @ decodeKey s \<and> (pre = [] \<or> last pre = hd MAPDATAPREFIX)"
    using decodeKey_split [of s] by (simp add: MAPDATAPREFIX_def)
  have 3: "\<not> sublist MAPDATAPREFIX (decodeKey s)"
    by (simp add: sublist_MAPDATAPREFIX decodeKey_no_prefix)
  have 4: "decodeKey (encodeKey k) = last (segments (hd MAPDATAPREFIX) k)"
    using 1 [of k] by (simp add: decodeKey_encodeKey)
  have 5: "sublist MAPDATAPREFIX k \<longrightarrow> decodeKey (encodeKey k) \<noteq> k"
    by (simp add: sublist_MAPDATAPREFIX decodeKey_lossy)
  show ?thesis using 1 [of s] 2 3 4 5 by blast
qed

theorem decodeKey_last_segment_witness:
  "sublist MAPDATAPREFIX (str ''a'' @ MAPDATAPREFIX @ str ''b'') \<and>
   decodeKey (encodeKey (str ''a'' @ MAPDATAPREFIX @ str ''b'')) = str ''b'' \<and>
   segments (hd MAPDATAPREFIX) (str ''a'' @ MAPDATAPREFIX @ str ''b'') = [str ''a'', str ''b'']"
proof -
  have h: "sublist MAPDATAPREFIX (str ''a'' @ MAPDATAPREFIX @ str ''b'')"
    unfolding sublist_MAPDATAPREFIX by (simp add: MAPDATAPREFIX_def)
  have s: "segments (hd MAPDATAPREFIX) (str ''a'' @ MAPDATAPREFIX @ str ''b'') = [str ''a'', str ''b'']"
    by (simp add: MAPDATAPREFIX_def str_def)
  show ?thesis
    using decodeKey_last_segment [of "str ''a''" "str ''a'' @ MAPDATAPREFIX @ str ''b''"] h s
    by simp
qed

text \<open>
  C3. When the value stored under \<open>k\<close> is \<^verbatim>\<open>null\<close>, \<^verbatim>\<open>remove(k)\<close> returns \<^verbatim>\<open>null\<close> and
  leaves the instance as it was: \<^verbatim>\<open>has(k)\<close> stays true and the size is unchanged. And
  \<^verbatim>\<open>removeAll()\<close> keeps the entry: afterwards \<^verbatim>\<open>has(k)\<close> is still true and the value
  still \<^verbatim>\<open>null\<close>.
\<close>
theorem remove_null_valued_entry:
  assumes "has k this" and "get k this = JNull"
  shows "remove (Key k) this = (Data JNull, this) \<and>
         has k (snd (remove (Key k) this)) \<and>
         size_hm (snd (remove (Key k) this)) = size_hm this \<and>
         has k (removeAll_hm this) \<and> get k (removeAll_hm this) = JNull"
  using assms removeAll_keeps_null [OF assms] by (simp add: removeByKey_null)

theorem remove_null_valued_entry_witness:
  "has (str ''a'') (setKeyValue (str ''a'') JNull (HashMap_new :: unit jsobject)) \<and>
   get (str ''a'') (setKeyValue (str ''a'') JNull (HashMap_new :: unit jsobject)) = JNull \<and>
   remove (Key (str ''a'')) (setKeyValue (str ''a'') JNull (HashMap_new :: unit jsobject)) =
     (Data JNull, setKeyValue (str ''a'') JNull HashMap_new) \<and>
   has (str ''a'') (removeAll_hm (setKeyValue (str ''a'') JNull (HashMap_new :: unit jsobject)))"
proof -
  let ?s = "setKeyValue (str ''a'') JNull (HashMap_new :: unit jsobject)"
  have h: "has (str ''a'') ?s" by (simp add: has_setKeyValue)
  have g: "get (str ''a'') ?s = JNull" by (simp add: get_setKeyValue)
  show ?thesis using remove_null_valued_entry [OF h g] h g by simp
qed

text \<open>
  C1. The claim has \<^verbatim>\<open>remove(k)\<close> of a present key decrement the size by one and make
  \<^verbatim>\<open>has(k)\<close> false. After \<^verbatim>\<open>set('a', null)\<close> on a new instance the key is present and the
  size is 1; \<^verbatim>\<open>remove('a')\<close> returns \<^verbatim>\<open>null\<close>, and the key is still present and the size
  still 1. (For an absent key, and for a present key with a value other than
  \<^verbatim>\<open>null\<close>, \<open>removeByKey_absent\<close> and \<open>removeByKey_present\<close> give what the claim says.)
\<close>
theorem remove_present_null_not_removed:
  "has (str ''a'') (setKeyValue (str ''a'') JNull (HashMap_new :: unit jsobject)) \<and>
   size_hm (setKeyValue (str ''a'') JNull (HashMap_new :: unit jsobject)) = JNumber 1 \<and>
   fst (remove (Key (str ''a'')) (setKeyValue (str ''a'') JNull (HashMap_new :: unit jsobject))) = Data JNull \<and>
   has (str ''a'') (snd (remove (Key (str ''a'')) (setKeyValue (str ''a'') JNull (HashMap_new :: unit jsobject)))) \<and>
   size_hm (snd (remove (Key (str ''a'')) (setKeyValue (str ''a'') JNull (HashMap_new :: unit jsobject)))) = JNumber 1"
  by (simp add: has_setKeyValue get_setKeyValue size_setKeyValue removeByKey_null)
    (simp add: has_def size_hm_def HashMap_new_def hasOwnProperty_def prop_get_def encodeKey_def
      MAPDATAPREFIX_def str_def)

section \<open>The counter and the keys\<close>

lemma data_keys_setKeyValue:
  "data_keys (setKeyValue k v this) =
     (if has k this then data_keys this else data_keys this @ [encodeKey k])"
  by (simp add: setKeyValue_def Let_def data_keys_put_encoded data_keys_put_length has_def
      hasOwnProperty_put length_not_encoded)

lemma data_key_encoded: "name \<in> set (data_keys this) \<Longrightarrow> name = encodeKey (drop 1 name)"
  using charAt_prefix_encoded [of name] by (simp add: data_keys_def)

lemma present_keys_has: "k \<in> set (present_keys this) \<longleftrightarrow> has k this"
proof
  assume "k \<in> set (present_keys this)"
  then obtain name where n: "name \<in> set (data_keys this)" and k: "k = drop 1 name"
    by (auto simp: present_keys_def)
  then show "has k this" using data_key_encoded [OF n] by (simp add: has_data_keys)
next
  assume "has k this"
  then have "encodeKey k \<in> set (data_keys this)" by (simp add: has_data_keys)
  moreover have "drop 1 (encodeKey k) = k" by (simp add: encodeKey_def MAPDATAPREFIX_def)
  ultimately show "k \<in> set (present_keys this)" by (force simp: present_keys_def)
qed

lemma distinct_present_keys:
  assumes "distinct (own_keys this)"
  shows "distinct (present_keys this)"
proof -
  have "inj_on (drop 1) (set (data_keys this))"
  proof (rule inj_onI)
    fix x y
    assume "x \<in> set (data_keys this)" "y \<in> set (data_keys this)" "drop 1 x = drop 1 y"
    then show "x = y" using data_key_encoded [of x this] data_key_encoded [of y this] by simp
  qed
  moreover have "distinct (data_keys this)" using assms by (simp add: data_keys_def)
  ultimately show ?thesis by (simp add: present_keys_def distinct_map)
qed

lemma card_has:
  assumes "distinct (own_keys this)"
  shows "card {k. has k this} = length (keys this)"
proof -
  have "{k. has k this} = set (present_keys this)" by (auto simp: present_keys_has)
  then have "card {k. has k this} = length (present_keys this)"
    using distinct_present_keys [OF assms] by (simp add: distinct_card)
  then show ?thesis by (simp add: present_keys_def keys_data_keys)
qed

lemma inv_size_keys: "HashMap_inv this \<Longrightarrow> size_hm this = JNumber (int (length (keys this)))"
  by (simp add: HashMap_inv_def keys_data_keys)

lemma setObject_inv: "HashMap_inv this \<Longrightarrow> HashMap_inv (setObject obj this)"
  unfolding setObject_def forEachOwnProperties_def
  by (rule loop_invariant [where P = HashMap_inv]) (simp_all add: setKeyValue_inv)

lemma merge_inv: "HashMap_inv (h self) \<Longrightarrow> HashMap_inv (merge self hashMap h self)"
  unfolding merge_def
  by (rule each_invariant [where P = "\<lambda>h. HashMap_inv (h self)"]) (simp_all add: setKeyValue_inv)

lemma snd_removeByKeyArray_Cons:
  "snd (removeByKeyArray (key # keyArray) this) =
     snd (removeByKeyArray keyArray (snd (removeByKey key this)))"
  by (cases "removeByKey key this"; cases "removeByKeyArray keyArray (snd (removeByKey key this))")
    simp

lemma snd_remove_Keys: "snd (remove (Keys keyArray) this) = snd (removeByKeyArray keyArray this)"
  by (cases "removeByKeyArray keyArray this") simp

lemma removeByKeyArray_inv:
  "HashMap_inv this \<Longrightarrow> HashMap_inv (snd (removeByKeyArray keyArray this))"
proof (induction keyArray arbitrary: this)
  case Nil
  then show ?case by simp
next
  case (Cons key keyArray)
  have "HashMap_inv (snd (removeByKey key this))" using Cons.prems by (rule removeByKey_inv)
  then have "HashMap_inv (snd (removeByKeyArray keyArray (snd (removeByKey key this))))"
    by (rule Cons.IH)
  then show ?case by (simp only: snd_removeByKeyArray_Cons)
qed

lemma remove_inv: "HashMap_inv this \<Longrightarrow> HashMap_inv (snd (remove args this))"
  by (cases args)
    (simp_all only: snd_remove_Key snd_remove_Keys removeByKeyArray_inv removeByKey_inv)

lemma removeAll_inv: "HashMap_inv this \<Longrightarrow> HashMap_inv (removeAll_hm this)"
  unfolding removeAll_hm_def
  by (rule each_invariant [where P = HashMap_inv])
    (simp_all only: snd_remove_Key snd_conv removeByKey_inv)

lemma apply_operation_inv: "HashMap_inv this \<Longrightarrow> HashMap_inv (apply_operation op this)"
proof (cases op)
  case (Merge other)
  assume "HashMap_inv this"
  then have "HashMap_inv (((\<lambda>_. other)(0 := this)) (0::nat))" by simp
  then show ?thesis unfolding Merge apply_operation.simps by (rule merge_inv)
qed (simp_all add: setKeyValue_inv setObject_inv remove_inv removeByKeyArray_inv removeAll_inv)

lemma run_inv: "HashMap_inv this \<Longrightarrow> HashMap_inv (run ops this)"
  unfolding run_def by (induction ops arbitrary: this) (simp_all add: apply_operation_inv)

lemma HashMap_ctor_inv: "HashMap_inv (HashMap init)"
  by (cases init) (simp_all add: HashMap_def HashMap_inv_new setObject_inv)

text \<open>
  C4. Start from a newly constructed instance, with or without initial data, and apply
  any finite sequence of \<^verbatim>\<open>set\<close>, \<^verbatim>\<open>setObject\<close>, \<^verbatim>\<open>merge\<close>, \<^verbatim>\<open>remove\<close>,
  \<^verbatim>\<open>removeByKeyArray\<close> and \<^verbatim>\<open>removeAll\<close>: the size is then the length of \<^verbatim>\<open>keys()\<close>,
  which is the number of distinct keys present.
\<close>
theorem size_counts_keys:
  "size_hm (run ops (HashMap init)) = JNumber (int (length (keys (run ops (HashMap init))))) \<and>
   length (keys (run ops (HashMap init))) = card {k. has k (run ops (HashMap init))}"
proof -
  have i: "HashMap_inv (run ops (HashMap init))" by (simp add: run_inv HashMap_ctor_inv)
  then have "distinct (own_keys (run ops (HashMap init)))" by (simp add: HashMap_inv_def)
  then show ?thesis using i by (simp add: inv_size_keys card_has)
qed

theorem size_counts_keys_witness:
  "size_hm (run [Set (str ''c'') (JNumber 3), Remove (Keys [str ''a'', str ''c''])]
       (HashMap (Some [(str ''a'', JNumber 1), (str ''b'', JNumber 2 :: unit jsval)]))) = JNumber 1 \<and>
   keys (run [Set (str ''c'') (JNumber 3), Remove (Keys [str ''a'', str ''c''])]
       (HashMap (Some [(str ''a'', JNumber 1), (str ''b'', JNumber 2 :: unit jsval)]))) = [str ''b'']"
proof -
  let ?s = "run [Set (str ''c'') (JNumber 3), Remove (Keys [str ''a'', str ''c''])]
       (HashMap (Some [(str ''a'', JNumber 1), (str ''b'', JNumber 2 :: unit jsval)]))"
  have k: "keys ?s = [str ''b'']" by code_simp
  show ?thesis
    using size_counts_keys [of "[Set (str ''c'') (JNumber 3), Remove (Keys [str ''a'', str ''c''])]"
        "Some [(str ''a'', JNumber 1), (str ''b'', JNumber 2 :: unit jsval)]"]
    by (simp only: k) simp
qed

text \<open>
  C5. In an instance whose counter is the number \<open>n\<close>, \<^verbatim>\<open>set(k, v)\<close> stores \<open>v\<close>:
  afterwards \<^verbatim>\<open>get(k)\<close> is \<open>v\<close> and \<^verbatim>\<open>has(k)\<close> is true. The size becomes \<open>n + 1\<close> when
  \<open>k\<close> was absent and stays \<open>n\<close> when it was present; so \<^verbatim>\<open>set(k, v1); set(k, v2)\<close>
  leaves the size as the first call made it, and \<^verbatim>\<open>get(k)\<close> is \<open>v2\<close>.
\<close>
theorem set_stores_and_counts:
  assumes "size_hm this = JNumber n"
  shows "get k (set_hm (KeyValue k v) this) = v \<and>
         has k (set_hm (KeyValue k v) this) \<and>
         (\<not> has k this \<longrightarrow> size_hm (set_hm (KeyValue k v) this) = JNumber (n + 1)) \<and>
         (has k this \<longrightarrow> size_hm (set_hm (KeyValue k v) this) = JNumber n) \<and>
         size_hm (set_hm (KeyValue k v2) (set_hm (KeyValue k v1) this)) =
           size_hm (set_hm (KeyValue k v1) this) \<and>
         get k (set_hm (KeyValue k v2) (set_hm (KeyValue k v1) this)) = v2"
  using assms by (simp add: get_setKeyValue has_setKeyValue size_setKeyValue)

theorem set_stores_and_counts_witness:
  "size_hm (HashMap_new :: unit jsobject) = JNumber 0 \<and>
   \<not> has (str ''k'') (HashMap_new :: unit jsobject) \<and>
   get (str ''k'') (set_hm (KeyValue (str ''k'') (JOther ())) HashMap_new) = JOther () \<and>
   size_hm (set_hm (KeyValue (str ''k'') (JOther ())) HashMap_new) = JNumber 1 \<and>
   size_hm (set_hm (KeyValue (str ''k'') JNull) (set_hm (KeyValue (str ''k'') (JOther ())) HashMap_new))
     = JNumber 1"
proof -
  have s: "size_hm (HashMap_new :: unit jsobject) = JNumber 0"
    by (simp add: size_hm_def HashMap_new_def prop_get_def)
  have h: "\<not> has (str ''k'') (HashMap_new :: unit jsobject)"
    by (simp add: has_def HashMap_new_def hasOwnProperty_def encodeKey_def MAPDATAPREFIX_def str_def)
  show ?thesis
    using set_stores_and_counts [OF s, of "str ''k''" "JOther ()" JNull "JOther ()"] s h by simp
qed

lemma present_keys_setKeyValue:
  "present_keys (setKeyValue k v this) =
     (if has k this then present_keys this else present_keys this @ [k])"
  by (simp add: present_keys_def data_keys_setKeyValue encodeKey_def MAPDATAPREFIX_def)

lemma keys_present_keys: "keys this = map (\<lambda>k. decodeKey (encodeKey k)) (present_keys this)"
proof -
  have "map decodeKey (data_keys this) = map (\<lambda>name. decodeKey (encodeKey (drop 1 name))) (data_keys this)"
    by (rule map_cong [OF refl]) (use data_key_encoded in fastforce)
  then show ?thesis by (simp add: keys_data_keys present_keys_def comp_def)
qed

lemma keys_visits: "keys this = map snd (visits this)"
  by (simp add: keys_data_keys visits_data_keys comp_def)

lemma present_keys_fold_set:
  "present_keys (fold (\<lambda>(k, v). set_hm (KeyValue k v)) kvs this) =
     present_keys this @ filter (\<lambda>k. k \<notin> set (present_keys this)) (first_inserted (map fst kvs))"
proof (induction kvs arbitrary: this)
  case Nil
  show ?case by simp
next
  case (Cons kv kvs)
  obtain k v where kv: "kv = (k, v)" by (cases kv)
  show ?case
  proof (cases "has k this")
    case True
    then have p: "present_keys (setKeyValue k v this) = present_keys this"
      by (simp add: present_keys_setKeyValue)
    have "k \<in> set (present_keys this)" using True by (simp add: present_keys_has)
    then have "filter (\<lambda>k. k \<notin> set (present_keys this)) (first_inserted (map fst (kv # kvs))) =
        filter (\<lambda>k. k \<notin> set (present_keys this)) (first_inserted (map fst kvs))"
      by (auto simp: kv intro: filter_cong)
    then show ?thesis using Cons.IH [of "setKeyValue k v this"] by (simp add: kv p)
  next
    case False
    then have p: "present_keys (setKeyValue k v this) = present_keys this @ [k]"
      by (simp add: present_keys_setKeyValue)
    have n: "k \<notin> set (present_keys this)" using False by (simp add: present_keys_has)
    have "filter (\<lambda>k'. k' \<notin> set (present_keys this)) (first_inserted (map fst (kv # kvs))) =
        k # filter (\<lambda>k'. k' \<notin> set (present_keys this @ [k])) (first_inserted (map fst kvs))"
      using n by (auto simp: kv intro: filter_cong)
    then show ?thesis using Cons.IH [of "setKeyValue k v this"] by (simp add: kv p)
  qed
qed

lemma present_keys_new: "present_keys HashMap_new = []"
  by (simp add: present_keys_def data_keys_def HashMap_new_def own_keys_def charAt_length)

lemma present_keys_removeByKey:
  "present_keys (snd (removeByKey k this)) =
     (if has k this \<and> get k this \<noteq> JNull then List.removeAll k (present_keys this)
      else present_keys this)"
proof (cases "has k this \<and> get k this \<noteq> JNull")
  case False
  then show ?thesis by (auto simp: removeByKey_def)
next
  case True
  have "data_keys (snd (removeByKey k this)) = List.removeAll (encodeKey k) (data_keys this)"
    using True by (simp add: removeByKey_def Let_def data_keys_put_length data_keys_delete)
  moreover have "map (drop 1) (List.removeAll (encodeKey k) xs) = List.removeAll k (map (drop 1) xs)"
    if enc: "\<And>name. name \<in> set xs \<Longrightarrow> name = encodeKey (drop 1 name)" for xs
  proof -
    have "filter (\<lambda>y. encodeKey k \<noteq> y) xs = filter ((\<lambda>y. k \<noteq> y) \<circ> drop 1) xs"
    proof (rule filter_cong [OF refl])
      fix x
      assume "x \<in> set xs"
      then have "x = encodeKey (drop 1 x)" by (rule enc)
      then have "encodeKey k = x \<longleftrightarrow> k = drop 1 x" by (metis encodeKey_inject)
      then show "(encodeKey k \<noteq> x) = ((\<lambda>y. k \<noteq> y) \<circ> drop 1) x" by simp
    qed
    then show ?thesis by (simp only: removeAll_filter_not_eq filter_map)
  qed
  ultimately have "present_keys (snd (removeByKey k this)) = List.removeAll k (present_keys this)"
    using data_key_encoded [of _ this] by (simp only: present_keys_def)
  then show ?thesis using True by simp
qed

text \<open>
  C10. \<^verbatim>\<open>keys()\<close> returns the keys present, decoded, in the order in which they were
  inserted, which is the order of the calls \<^verbatim>\<open>each\<close> makes. \<open>present_keys\<close> holds exactly
  the keys \<open>k\<close> with \<^verbatim>\<open>has(k)\<close>; setting a present key leaves the order as it is, setting
  an absent key puts it last, removing a key leaves the others in their order (a key
  removed and set again is inserted anew). After any sequence of calls of \<^verbatim>\<open>set\<close> on a
  new instance, the keys stand in the order of their first insertion.
\<close>
theorem keys_insertion_order:
  fixes this :: "'a jsobject" and kvs :: "(jsstring \<times> 'a jsval) list"
  shows
  "(k \<in> set (present_keys this) \<longleftrightarrow> has k this) \<and>
   keys this = map (\<lambda>k. decodeKey (encodeKey k)) (present_keys this) \<and>
   keys this = map snd (visits this) \<and>
   (has k this \<longrightarrow> present_keys (set_hm (KeyValue k v) this) = present_keys this) \<and>
   (\<not> has k this \<longrightarrow> present_keys (set_hm (KeyValue k v) this) = present_keys this @ [k]) \<and>
   (has k this \<and> get k this \<noteq> JNull \<longrightarrow>
      present_keys (snd (remove (Key k) this)) = List.removeAll k (present_keys this)) \<and>
   present_keys (fold (\<lambda>(k, v). set_hm (KeyValue k v)) kvs HashMap_new) = first_inserted (map fst kvs)"
proof -
  have "present_keys (fold (\<lambda>(k, v). set_hm (KeyValue k v)) kvs (HashMap_new :: 'a jsobject)) =
      first_inserted (map fst kvs)"
    using present_keys_fold_set [of kvs "HashMap_new :: 'a jsobject"]
    by (simp add: present_keys_new)
  then show ?thesis
    using keys_present_keys [of this] keys_visits [of this]
    by (simp add: present_keys_has present_keys_setKeyValue present_keys_removeByKey
        snd_remove_Key del: remove.simps)
qed

theorem keys_insertion_order_witness:
  "has (str ''a'') (setKeyValue (str ''a'') (JNumber 1) (HashMap_new :: unit jsobject)) \<and>
   get (str ''a'') (setKeyValue (str ''a'') (JNumber 1) (HashMap_new :: unit jsobject)) \<noteq> JNull \<and>
   \<not> has (str ''b'') (setKeyValue (str ''a'') (JNumber 1) (HashMap_new :: unit jsobject)) \<and>
   keys (setKeyValue (str ''a'') (JNumber 1) (HashMap_new :: unit jsobject)) = [str ''a''] \<and>
   keys (set_hm (KeyValue (str ''a'') JNull)
     (setKeyValue (str ''a'') (JNumber 1) (HashMap_new :: unit jsobject))) = [str ''a''] \<and>
   keys (set_hm (KeyValue (str ''b'') JNull)
     (setKeyValue (str ''a'') (JNumber 1) (HashMap_new :: unit jsobject))) = [str ''a'', str ''b''] \<and>
   keys (snd (remove (Key (str ''a''))
     (setKeyValue (str ''a'') (JNumber 1) (HashMap_new :: unit jsobject)))) = []"
proof -
  let ?s = "setKeyValue (str ''a'') (JNumber 1) (HashMap_new :: unit jsobject)"
  have h: "has (str ''a'') ?s" by (simp add: has_setKeyValue)
  have g: "get (str ''a'') ?s \<noteq> JNull" by (simp add: get_setKeyValue)
  have n: "\<not> has (str ''b'') ?s"
    by (simp add: has_setKeyValue str_def)
      (simp add: has_def HashMap_new_def hasOwnProperty_def encodeKey_def MAPDATAPREFIX_def str_def)
  have p: "present_keys ?s = [str ''a'']"
    by (simp add: present_keys_setKeyValue present_keys_new)
      (simp add: has_def HashMap_new_def hasOwnProperty_def encodeKey_def MAPDATAPREFIX_def str_def)
  have d: "decodeKey (encodeKey (str ''a'')) = str ''a''" "decodeKey (encodeKey (str ''b'')) = str ''b''"
    by (simp_all add: decodeKey_encodeKey decodeKey_free str_def)
  have 1: "present_keys (set_hm (KeyValue (str ''a'') JNull) ?s) = [str ''a'']"
    and 2: "present_keys (snd (remove (Key (str ''a'')) ?s)) = []"
    using keys_insertion_order [of "str ''a''" ?s JNull "[]"] h g p by simp_all
  have 3: "present_keys (set_hm (KeyValue (str ''b'') JNull) ?s) = [str ''a'', str ''b'']"
    using keys_insertion_order [of "str ''b''" ?s JNull "[]"] n p by simp
  show ?thesis using h g n
    by (simp add: keys_present_keys p 1 2 3 d del: set_hm.simps remove.simps)
qed


text \<open>
  C6. Every string is accepted as a key, the name \<^verbatim>\<open>length\<close> of the counter included.
  The encoded key starts with the prefix, the name of the counter does not, so they
  differ, and after \<^verbatim>\<open>set(k, v)\<close> every own property is either the counter or an entry
  under a name that starts with the prefix. \<^verbatim>\<open>get(k)\<close> returns \<open>v\<close>; the counter does
  not depend on \<open>v\<close> (it is the old one, plus one when \<open>k\<close> was absent) and is the
  number of keys present; \<^verbatim>\<open>set\<close> and \<^verbatim>\<open>remove\<close> keep the instance well formed.
\<close>
theorem encoded_keys_apart_from_counter:
  assumes "HashMap_inv this"
  shows "charAt (encodeKey k) 0 = MAPDATAPREFIX \<and>
         charAt (str ''length'') 0 \<noteq> MAPDATAPREFIX \<and>
         encodeKey k \<noteq> str ''length'' \<and>
         (\<forall>name \<in> set (own_keys (set_hm (KeyValue k v) this)).
            (name = str ''length'') \<noteq> (charAt name 0 = MAPDATAPREFIX)) \<and>
         get k (set_hm (KeyValue k v) this) = v \<and>
         has k (set_hm (KeyValue k v) this) \<and>
         size_hm (set_hm (KeyValue k v) this) =
           (if has k this then size_hm this else js_add (size_hm this) 1) \<and>
         size_hm (set_hm (KeyValue k v) this) =
           JNumber (int (card {k'. has k' (set_hm (KeyValue k v) this)})) \<and>
         HashMap_inv (set_hm (KeyValue k v) this) \<and>
         HashMap_inv (snd (remove (Key k) this))"
proof -
  let ?t = "setKeyValue k v this"
  have i: "HashMap_inv ?t" using assms by (rule setKeyValue_inv)
  then have d: "distinct (own_keys ?t)"
    and b: "\<forall>name \<in> set (own_keys ?t). name = str ''length'' \<or> charAt name 0 = MAPDATAPREFIX"
    by (simp_all add: HashMap_inv_def)
  have "\<forall>name \<in> set (own_keys ?t). (name = str ''length'') \<noteq> (charAt name 0 = MAPDATAPREFIX)"
    using b charAt_length by auto
  moreover have "size_hm ?t = JNumber (int (card {k'. has k' ?t}))"
    using inv_size_keys [OF i] card_has [OF d] by simp
  moreover have "HashMap_inv (snd (remove (Key k) this))" using assms by (rule remove_inv)
  ultimately show ?thesis using i
    by (simp add: charAt_encodeKey charAt_length length_not_encoded get_setKeyValue
        has_setKeyValue size_setKeyValue del: remove.simps)
qed

theorem encoded_keys_apart_from_counter_witness:
  "HashMap_inv (HashMap_new :: unit jsobject) \<and>
   get (str ''length'') (set_hm (KeyValue (str ''length'') (JOther ())) HashMap_new) = JOther () \<and>
   size_hm (set_hm (KeyValue (str ''length'') (JOther ())) (HashMap_new :: unit jsobject)) = JNumber 1 \<and>
   encodeKey (str ''length'') \<noteq> str ''length''"
proof -
  have s: "size_hm (HashMap_new :: unit jsobject) = JNumber 0"
    by (simp add: size_hm_def HashMap_new_def prop_get_def)
  have h: "\<not> has (str ''length'') (HashMap_new :: unit jsobject)"
    by (simp add: has_def HashMap_new_def hasOwnProperty_def encodeKey_def MAPDATAPREFIX_def str_def)
  show ?thesis
    using encoded_keys_apart_from_counter [OF HashMap_inv_new, of "str ''length''" "JOther ()"] s h
    by (simp add: HashMap_inv_new del: set_hm.simps remove.simps)
qed

section \<open>Merging\<close>

lemma fold_heap_self:
  "fold (\<lambda>name h'. h'(self := g name (h' self))) ks h = h(self := fold g ks (h self))"
  by (induction ks arbitrary: h) simp_all

lemma merge_self:
  assumes "self \<noteq> hashMap"
  shows "merge self hashMap h =
     h(self := fold (\<lambda>(v, k). setKeyValue k v) (visits (h hashMap)) (h self))"
proof -
  have "fold (\<lambda>(v, k). setKeyValue k v) (visits (h hashMap)) (h self) =
      fold (\<lambda>name. setKeyValue (decodeKey name) (prop_get (h hashMap) name)) (data_keys (h hashMap)) (h self)"
    by (simp add: visits_data_keys fold_map comp_def)
  then show ?thesis
    using fold_heap_self [of self "\<lambda>name. setKeyValue (decodeKey name) (prop_get (h hashMap) name)"
        "data_keys (h hashMap)" h]
    by (simp add: merge_fold [OF assms])
qed

lemma fold_set_has:
  "has k (fold (\<lambda>(v, k). setKeyValue k v) vks this) \<longleftrightarrow> k \<in> snd ` set vks \<or> has k this"
  by (induction vks arbitrary: this) (auto simp: has_setKeyValue)

lemma fold_set_get:
  assumes "\<forall>(v, k') \<in> set vks. v = f k'"
  shows "get k (fold (\<lambda>(v, k). setKeyValue k v) vks this) =
     (if k \<in> snd ` set vks then f k else get k this)"
  using assms
proof (induction vks arbitrary: this)
  case Nil
  show ?case by simp
next
  case (Cons vk vks)
  obtain v k' where vk: "vk = (v, k')" by (cases vk)
  have v: "v = f k'" using Cons.prems by (simp add: vk)
  have "get k (fold (\<lambda>(v, k). setKeyValue k v) vks (setKeyValue k' v this)) =
      (if k \<in> snd ` set vks then f k else get k (setKeyValue k' v this))"
    using Cons.IH [of "setKeyValue k' v this"] Cons.prems by simp
  then show ?case using v by (auto simp: vk get_setKeyValue)
qed

lemma visits_prefix_free:
  assumes "\<forall>k. has k this \<longrightarrow> \<not> sublist MAPDATAPREFIX k"
  shows "visits this = map (\<lambda>k. (get k this, k)) (present_keys this)"
proof -
  have "(prop_get this name, decodeKey name) = (get (drop 1 name) this, drop 1 name)"
    if n: "name \<in> set (data_keys this)" for name
  proof -
    have e: "name = encodeKey (drop 1 name)" using n by (rule data_key_encoded)
    then have "has (drop 1 name) this" using n has_data_keys [of "drop 1 name" this] by simp
    then have "0xE5 \<notin> set (drop 1 name)" using assms by (simp add: sublist_MAPDATAPREFIX)
    then have "decodeKey (encodeKey (drop 1 name)) = drop 1 name"
      by (simp add: decodeKey_encodeKey decodeKey_free)
    then show ?thesis using e by (simp add: get_def)
  qed
  then show ?thesis by (simp add: visits_data_keys present_keys_def comp_def)
qed

lemma setKeyValue_same: "has k this \<Longrightarrow> get k this = v \<Longrightarrow> setKeyValue k v this = this"
  by (auto simp: setKeyValue_def has_def get_def prop_put_def prop_get_def hasOwnProperty_def
      update_triv split: option.splits)

lemma fold_set_same:
  assumes "\<forall>(v, k) \<in> set vks. has k this \<and> get k this = v"
  shows "fold (\<lambda>(v, k). setKeyValue k v) vks this = this"
  using assms by (induction vks) (auto simp: setKeyValue_same)

lemma merge_same_object:
  assumes "\<forall>k. has k (h self) \<longrightarrow> \<not> sublist MAPDATAPREFIX k"
  shows "merge self self h = h"
proof -
  let ?B = "h self"
  have vs: "visits ?B = map (\<lambda>k. (get k ?B, k)) (present_keys ?B)"
    using assms by (rule visits_prefix_free)
  have same: "setKeyValue (decodeKey name) (prop_get ?B name) ?B = ?B"
    if "name \<in> set (data_keys ?B)" for name
  proof -
    have "(prop_get ?B name, decodeKey name) \<in> set (visits ?B)"
      using that by (auto simp: visits_data_keys)
    then obtain k where "k \<in> set (present_keys ?B)" and "prop_get ?B name = get k ?B"
      and "decodeKey name = k"
      unfolding vs by auto
    then show ?thesis by (simp add: setKeyValue_same present_keys_has)
  qed
  have "merge self self h =
      fold (\<lambda>name h'. snd ((\<lambda>val key h. (False, h(self := setKeyValue key val (h self))))
        (prop_get ?B name) (decodeKey name) h')) (data_keys ?B) h"
    unfolding merge_def
  proof (rule each_fold)
    show "h self = h self" ..
  next
    fix name s
    assume "s self = h self" and "name \<in> set (data_keys (h self))"
    then show "\<not> fst (False, s(self := setKeyValue (decodeKey name) (prop_get (h self) name) (s self))) \<and>
        (snd (False, s(self := setKeyValue (decodeKey name) (prop_get (h self) name) (s self)))) self = h self"
      by (simp add: same)
  qed
  also have "\<dots> = h(self := fold (\<lambda>name. setKeyValue (decodeKey name) (prop_get ?B name)) (data_keys ?B) ?B)"
    using fold_heap_self [of self "\<lambda>name. setKeyValue (decodeKey name) (prop_get ?B name)"
        "data_keys ?B" h] by simp
  also have "fold (\<lambda>name. setKeyValue (decodeKey name) (prop_get ?B name)) (data_keys ?B) ?B =
      fold (\<lambda>(v, k). setKeyValue k v) (visits ?B) ?B"
    by (simp add: visits_data_keys fold_map comp_def)
  also have "\<dots> = ?B"
    by (rule fold_set_same) (auto simp: vs present_keys_has)
  finally show ?thesis by simp
qed

text \<open>
  C9. As stated the claim fails when a key of the argument contains the prefix: \<^verbatim>\<open>each\<close>
  hands the decoded key to \<^verbatim>\<open>setKeyValue\<close>, so the value lands under the last segment of
  the key (the counterexample follows the witness). Amended: let no key of the argument
  contain the prefix. Then \<^verbatim>\<open>merge\<close> sets the entries of the argument into the receiver
  in the order in which \<^verbatim>\<open>each\<close> visits them; afterwards the receiver has every key of
  the argument with the argument's value, its entries under other keys are as before,
  and the argument, like every object but the receiver, is unchanged. The receiver and
  the argument may be the same object, which the merge then leaves as it is.
\<close>

theorem merge_keys_without_prefix:
  assumes "\<forall>k. has k (h hashMap) \<longrightarrow> \<not> sublist MAPDATAPREFIX k"
  shows "merge self hashMap h self =
           fold (\<lambda>(v, k). setKeyValue k v) (visits (h hashMap)) (h self) \<and>
         (\<forall>k. has k (h hashMap) \<longrightarrow>
            has k (merge self hashMap h self) \<and>
            get k (merge self hashMap h self) = get k (h hashMap)) \<and>
         (\<forall>k. \<not> has k (h hashMap) \<longrightarrow>
            has k (merge self hashMap h self) = has k (h self) \<and>
            get k (merge self hashMap h self) = get k (h self)) \<and>
         merge self hashMap h hashMap = h hashMap \<and>
         (\<forall>r. r \<noteq> self \<longrightarrow> merge self hashMap h r = h r)"
proof -
  let ?B = "h hashMap"
  let ?A' = "fold (\<lambda>(v, k). setKeyValue k v) (visits ?B) (h self)"
  have vs: "visits ?B = map (\<lambda>k. (get k ?B, k)) (present_keys ?B)"
    using assms by (rule visits_prefix_free)
  have same: "?A' = h self" if "self = hashMap"
    unfolding that by (rule fold_set_same) (auto simp: vs present_keys_has)
  have m: "merge self hashMap h = h(self := ?A')"
  proof (cases "self = hashMap")
    case False
    then show ?thesis by (rule merge_self)
  next
    case True
    have "merge self hashMap h = h" using assms unfolding True by (rule merge_same_object)
    then show ?thesis using same [OF True] by simp
  qed
  have s: "snd ` set (visits ?B) = {k. has k ?B}"
    by (auto simp: vs present_keys_has image_image)
  have "\<forall>(v, k') \<in> set (visits ?B). v = get k' ?B" by (auto simp: vs)
  then have g: "get k ?A' = (if k \<in> snd ` set (visits ?B) then get k ?B else get k (h self))" for k
    by (rule fold_set_get)
  have hs: "has k ?A' \<longleftrightarrow> k \<in> snd ` set (visits ?B) \<or> has k (h self)" for k
    by (rule fold_set_has)
  have b: "merge self hashMap h hashMap = h hashMap"
  proof (cases "self = hashMap")
    case True
    then show ?thesis using assms merge_same_object [of h hashMap] by simp
  next
    case False
    then show ?thesis by (simp add: m)
  qed
  have "merge self hashMap h self = ?A'" by (simp add: m)
  moreover have "\<forall>r. r \<noteq> self \<longrightarrow> merge self hashMap h r = h r" by (simp add: m)
  ultimately show ?thesis using b by (simp add: g hs s)
qed

theorem merge_keys_without_prefix_witness:
  "has (str ''x'') (heap_x_xy 1) \<and> has (str ''y'') (heap_x_xy 1) \<and>
   \<not> sublist MAPDATAPREFIX (str ''x'') \<and> \<not> sublist MAPDATAPREFIX (str ''y'') \<and>
   get (str ''x'') (heap_x_xy 0) = JNumber 1 \<and>
   get (str ''x'') (merge 0 1 heap_x_xy 0) = JNumber 2 \<and>
   get (str ''y'') (merge 0 1 heap_x_xy 0) = JNumber 3 \<and>
   merge 0 1 heap_x_xy 1 = store_xy"
proof -
  have e: "store_xy = setKeyValue (str ''y'') (JNumber 3) (setKeyValue (str ''x'') (JNumber 2) HashMap_new)"
    by (simp add: store_xy_def HashMap_def setObject_fold own_keys_def prop_get_def str_def)
  have n: "has k HashMap_new = False" for k
    by (simp add: has_def HashMap_new_def hasOwnProperty_def encodeKey_def MAPDATAPREFIX_def str_def)
  have g: "\<forall>k. has k (heap_x_xy 1) \<longrightarrow> \<not> sublist MAPDATAPREFIX k"
    by (auto simp: heap_x_xy_def e has_setKeyValue n sublist_MAPDATAPREFIX str_def)
  have b: "heap_x_xy 1 = store_xy" by (simp add: heap_x_xy_def)
  have hx: "has (str ''x'') store_xy" and hy: "has (str ''y'') store_xy"
    by (simp_all add: e has_setKeyValue)
  have gx: "get (str ''x'') store_xy = JNumber 2" and gy: "get (str ''y'') store_xy = JNumber 3"
    by (simp_all add: e get_setKeyValue str_def)
  have a: "get (str ''x'') (heap_x_xy 0) = JNumber 1"
    by (simp add: heap_x_xy_def store_x_def) code_simp
  have f: "\<not> sublist MAPDATAPREFIX (str ''x'')" "\<not> sublist MAPDATAPREFIX (str ''y'')"
    by (simp_all add: sublist_MAPDATAPREFIX str_def)
  note t = merge_keys_without_prefix [where h = heap_x_xy and hashMap = 1 and self = 0, OF g]
  have m: "get k (merge 0 1 heap_x_xy 0) = get k store_xy" if "has k store_xy" for k
    using t that unfolding b by blast
  have u: "merge 0 1 heap_x_xy 1 = store_xy" using t unfolding b by blast
  show ?thesis using m [OF hx] m [OF hy] u b hx hy gx gy a f by simp
qed

text \<open>
  The argument holds the key \<^verbatim>\<open>a\<close>, prefix, \<^verbatim>\<open>b\<close> with the value 1 and the receiver is new:
  after the merge the receiver has nothing under that key, and has the value 1 under
  the key \<^verbatim>\<open>b\<close>, which the argument does not hold.
\<close>

theorem merge_prefix_key_counterexample:
  "has key_with_prefix (heap_with_prefix_key 1) \<and>
   get key_with_prefix (merge 0 1 heap_with_prefix_key 1) = JNumber 1 \<and>
   get key_with_prefix (merge 0 1 heap_with_prefix_key 0) = JUndefined \<and>
   \<not> has (str ''b'') (heap_with_prefix_key 1) \<and>
   get (str ''b'') (heap_with_prefix_key 0) = JUndefined \<and>
   get (str ''b'') (merge 0 1 heap_with_prefix_key 0) = JNumber 1"
  unfolding heap_with_prefix_key_def store_with_prefix_key_def key_with_prefix_def by code_simp

section \<open>Removing every entry\<close>

lemma removeAll_loop:
  assumes good: "\<forall>k. has k self \<longrightarrow> get k self \<noteq> JNull \<and> \<not> sublist MAPDATAPREFIX k"
    and pend: "\<forall>k. has k self \<longrightarrow> encodeKey k \<in> set ks"
  shows "\<not> has k (snd (forEachOwnProperties_loop (\<lambda>(flag :: bool, s). s)
       (\<lambda>val key (flag, s).
          (case (if charAt key 0 = MAPDATAPREFIX
                 then (False, snd (remove (Key (decodeKey key)) s))
                 else (flag, s)) of
             (flag', s') \<Rightarrow> (flag', (flag', s'))))
       ks (False, self)))"
  using good pend
proof (induction ks arbitrary: self)
  case Nil
  then show ?case by simp
next
  case (Cons key rest)
  show ?case
  proof (cases "hasOwnProperty self key \<and> charAt key 0 = MAPDATAPREFIX")
    case True
    define u where "u = drop 1 key"
    let ?self' = "snd (removeByKey u self)"
    have e: "key = encodeKey u"
      using True charAt_prefix_encoded [of key] unfolding u_def by blast
    have h: "has u self" using True unfolding e by (simp add: has_def)
    have nn: "get u self \<noteq> JNull" and "0xE5 \<notin> set u"
      using Cons.prems(1) h by (simp_all add: sublist_MAPDATAPREFIX)
    then have d: "decodeKey (encodeKey u) = u" by (simp add: decodeKey_encodeKey decodeKey_free)
    have g': "\<forall>k. has k ?self' \<longrightarrow> get k ?self' \<noteq> JNull \<and> \<not> sublist MAPDATAPREFIX k"
      using Cons.prems(1) by (simp add: removeByKey_present [OF h nn])
    have p': "\<forall>k. has k ?self' \<longrightarrow> encodeKey k \<in> set rest"
    proof (intro allI impI)
      fix k
      assume "has k ?self'"
      then have "k \<noteq> u" and "has k self" by (simp_all add: removeByKey_present [OF h nn])
      then have "encodeKey k \<in> set (key # rest)" and "encodeKey k \<noteq> key"
        using Cons.prems(2) unfolding e by (auto simp: encodeKey_inject)
      then show "encodeKey k \<in> set rest" by simp
    qed
    have "hasOwnProperty self (encodeKey u)" using h by (simp add: has_def)
    then show ?thesis
      using Cons.IH [OF g' p'] unfolding e
      by (simp add: snd_remove_Key charAt_encodeKey d del: remove.simps)
  next
    case False
    have p': "\<forall>k. has k self \<longrightarrow> encodeKey k \<in> set rest"
    proof (intro allI impI)
      fix k
      assume hk: "has k self"
      then have "encodeKey k \<in> set (key # rest)" using Cons.prems(2) by blast
      moreover have "encodeKey k \<noteq> key"
        using False hk by (auto simp: has_def charAt_encodeKey)
      ultimately show "encodeKey k \<in> set rest" by simp
    qed
    show ?thesis
    proof (cases "hasOwnProperty self key")
      case True
      then have "charAt key 0 \<noteq> MAPDATAPREFIX" using False by simp
      then show ?thesis using Cons.IH [OF Cons.prems(1) p'] True by simp
    next
      case False
      then show ?thesis using Cons.IH [OF Cons.prems(1) p'] by simp
    qed
  qed
qed

lemma removeAll_no_entry:
  assumes "\<forall>k. has k this \<longrightarrow> get k this \<noteq> JNull \<and> \<not> sublist MAPDATAPREFIX k"
  shows "\<not> has k (removeAll_hm this)"
proof -
  have "\<forall>k. has k this \<longrightarrow> encodeKey k \<in> set (own_keys this)"
    by (simp add: has_def hasOwnProperty_own_keys)
  with assms show ?thesis
    unfolding removeAll_hm_def each_def forEachOwnProperties_def prod.case
    by (rule removeAll_loop)
qed

text \<open>
  C2. As stated the claim fails for an instance with a key that contains the prefix:
  \<^verbatim>\<open>removeAll\<close> removes the decoded key, another key
  (the counterexample follows the witness). Amended: in a well-formed instance in
  which no key contains the prefix and no value is \<^verbatim>\<open>null\<close>, \<^verbatim>\<open>removeAll()\<close> leaves no
  entry: the size is 0, \<^verbatim>\<open>keys()\<close> is empty and \<^verbatim>\<open>has(k)\<close> is false for every \<open>k\<close>.
\<close>
theorem removeAll_empties:
  assumes "HashMap_inv this"
    and "\<forall>k. has k this \<longrightarrow> get k this \<noteq> JNull \<and> \<not> sublist MAPDATAPREFIX k"
  shows "size_hm (removeAll_hm this) = JNumber 0 \<and>
         keys (removeAll_hm this) = [] \<and>
         (\<forall>k. \<not> has k (removeAll_hm this))"
proof -
  have n: "\<not> has k (removeAll_hm this)" for k using assms(2) by (rule removeAll_no_entry)
  have "present_keys (removeAll_hm this) = []"
  proof (cases "present_keys (removeAll_hm this)")
    case Nil
    then show ?thesis .
  next
    case (Cons x xs)
    then have "x \<in> set (present_keys (removeAll_hm this))" by simp
    then have "has x (removeAll_hm this)" by (simp only: present_keys_has)
    then show ?thesis using n by blast
  qed
  then have k: "keys (removeAll_hm this) = []" by (simp add: keys_present_keys)
  have "HashMap_inv (removeAll_hm this)" using assms(1) by (rule removeAll_inv)
  then have "size_hm (removeAll_hm this) = JNumber 0" using k by (simp add: inv_size_keys)
  then show ?thesis using k n by simp
qed

theorem removeAll_empties_witness:
  "HashMap_inv store_xy \<and>
   has (str ''x'') store_xy \<and> has (str ''y'') store_xy \<and> size_hm store_xy = JNumber 2 \<and>
   size_hm (removeAll_hm store_xy) = JNumber 0 \<and>
   keys (removeAll_hm store_xy) = [] \<and>
   \<not> has (str ''x'') (removeAll_hm store_xy)"
proof -
  have i: "HashMap_inv store_xy" unfolding store_xy_def by (rule HashMap_ctor_inv)
  have e: "store_xy = setKeyValue (str ''y'') (JNumber 3) (setKeyValue (str ''x'') (JNumber 2) HashMap_new)"
    by (simp add: store_xy_def HashMap_def setObject_fold own_keys_def prop_get_def str_def)
  have n: "has k HashMap_new = False" for k
    by (simp add: has_def HashMap_new_def hasOwnProperty_def encodeKey_def MAPDATAPREFIX_def str_def)
  have g: "\<forall>k. has k store_xy \<longrightarrow> get k store_xy \<noteq> JNull \<and> \<not> sublist MAPDATAPREFIX k"
    by (auto simp: e has_setKeyValue get_setKeyValue n sublist_MAPDATAPREFIX str_def)
  have s: "size_hm store_xy = JNumber 2" unfolding store_xy_def by code_simp
  show ?thesis using removeAll_empties [OF i g] i s by (simp add: e has_setKeyValue)
qed

text \<open>
  The instance holds the one key \<^verbatim>\<open>a\<close>, prefix, \<^verbatim>\<open>b\<close>: \<^verbatim>\<open>removeAll()\<close> calls
  \<^verbatim>\<open>remove('b')\<close>, and the entry is still there, with size 1.
\<close>

theorem removeAll_prefix_key_counterexample:
  "has key_with_prefix (removeAll_hm store_with_prefix_key) \<and>
   size_hm (removeAll_hm store_with_prefix_key) = JNumber 1 \<and>
   keys (removeAll_hm store_with_prefix_key) = [str ''b'']"
  unfolding store_with_prefix_key_def key_with_prefix_def by code_simp

end
